theory Spec2Isabelle
  imports Main "HOL-Library.Sublist" "HOL-Library.Product_Lexorder"
begin

section \<open>Fuzzy word completion: prompt-toolkit, completion/fuzzy-completer\<close>

text \<open>
  The module offers one class, \<open>FuzzyWordCompleter\<close>. Its method \<open>get_completions\<close>
  builds a regular expression from the text before the cursor, searches every candidate
  word with it, keeps the best match of every word, sorts the matches and yields one
  \<open>Completion\<close> per match; \<open>_get_display\<close> computes the highlighted label of a match.

  Python strings are modelled as \<open>string\<close>, one \<open>char\<close> per character. Natural numbers
  model the offsets and lengths, which the code obtains from \<open>m.start()\<close> and \<open>len\<close> and
  which are therefore never negative; on such numbers the slice \<open>w[a:b]\<close> is
  \<open>drop a (take b w)\<close>, also when \<open>a\<close> or \<open>b\<close> lies beyond the end of \<open>w\<close>.
\<close>

subsection \<open>Characters\<close>

text \<open>
  The pattern is compiled with \<open>re.IGNORECASE\<close> and no other flag. A literal of the pattern
  then matches a character of the word when both have the same lower-case form; the
  letters \<open>A\<close> to \<open>Z\<close> are the characters that are folded.
\<close>

definition lower :: "char \<Rightarrow> char" where
  "lower c = (let n = (of_char c :: nat) in if 65 \<le> n \<and> n \<le> 90 then char_of (n + 32) else c)"

definition ci_eq :: "char \<Rightarrow> char \<Rightarrow> bool" where
  "ci_eq a b = (lower a = lower b)"

text \<open>Without \<open>re.DOTALL\<close> the dot of a pattern matches every character except the newline.\<close>

definition newline :: char where
  "newline = CHR 0x0A"

subsection \<open>The regular expression\<close>

text \<open>
  \<open>pat = '.*?'.join(map(re.escape, word_before_cursor))\<close>: every character of the query
  is escaped, so it stands for itself, and two neighbours are separated by the lazy
  repetition \<open>.*?\<close>. A pattern of this kind is a list of atoms.
\<close>

datatype atom = Lit char | AnyLazy

definition re_escape :: "char \<Rightarrow> atom list" where
  "re_escape c = [Lit c]"

fun join :: "'a list \<Rightarrow> 'a list list \<Rightarrow> 'a list" where
  "join sep [] = []"
| "join sep [x] = x"
| "join sep (x # y # ys) = x @ sep @ join sep (y # ys)"

definition pattern :: "string \<Rightarrow> atom list" where
  "pattern word_before_cursor = join [AnyLazy] (map re_escape word_before_cursor)"

text \<open>
  One attempt of the backtracking matcher at the head of a text: the number of characters
  the pattern consumes, or \<open>None\<close> when the attempt fails. A literal consumes one
  character. The lazy repetition first tries the rest of the pattern where it stands and,
  only when that fails, lets the dot consume one more character and tries again; the dot
  refuses a newline. Nothing follows the pattern inside the group, so the first success
  of the rest is the success of the whole.
\<close>

fun match_here :: "atom list \<Rightarrow> string \<Rightarrow> nat option" where
  "match_here [] w = Some 0"
| "match_here (Lit c # p) [] = None"
| "match_here (Lit c # p) (x # w) =
     (if ci_eq c x then map_option Suc (match_here p w) else None)"
| "match_here (AnyLazy # p) w =
     (case match_here p w of
        Some n \<Rightarrow> Some n
      | None \<Rightarrow>
          (case w of
             [] \<Rightarrow> None
           | x # w' \<Rightarrow> if x = newline then None else map_option Suc (match_here (AnyLazy # p) w')))"

text \<open>
  \<open>pat = '(?=({0}))'.format(pat)\<close> wraps the pattern in a group inside a lookahead. The
  lookahead consumes nothing, so every match is empty and \<open>regex.finditer(word)\<close> tries
  each position of the word in turn, the end of the word included. A match object
  is known by \<open>m.start()\<close> and by \<open>m.group(1)\<close>, the text the group has captured.
\<close>

record match_object =
  m_start :: nat
  m_group1 :: string

fun scan :: "atom list \<Rightarrow> nat \<Rightarrow> string \<Rightarrow> match_object list" where
  "scan p pos [] =
     (case match_here p [] of
        None \<Rightarrow> []
      | Some n \<Rightarrow> [\<lparr>m_start = pos, m_group1 = []\<rparr>])"
| "scan p pos (x # w) =
     (case match_here p (x # w) of
        None \<Rightarrow> scan p (Suc pos) w
      | Some n \<Rightarrow> \<lparr>m_start = pos, m_group1 = take n (x # w)\<rparr> # scan p (Suc pos) w)"

definition finditer :: "atom list \<Rightarrow> string \<Rightarrow> match_object list" where
  "finditer p word = scan p 0 word"

subsection \<open>The best match of a word\<close>

text \<open>
  \<open>min(matches, key=...)\<close> on a list that is not empty, given as its first element and the
  rest: the first element with the least key.
\<close>

fun min_key :: "('a \<Rightarrow> 'k::linorder) \<Rightarrow> 'a \<Rightarrow> 'a list \<Rightarrow> 'a" where
  "min_key f best [] = best"
| "min_key f best (y # ys) = min_key f (if f y < f best then y else best) ys"

record FuzzyMatch =
  match_length :: nat
  start_pos :: nat
  word :: string

definition match_key :: "match_object \<Rightarrow> nat \<times> nat" where
  "match_key m = (m_start m, length (m_group1 m))"

text \<open>The body of the loop over the words, for one word.\<close>

definition best_match :: "atom list \<Rightarrow> string \<Rightarrow> FuzzyMatch option" where
  "best_match p w =
     (case finditer p w of
        [] \<Rightarrow> None
      | m # ms \<Rightarrow>
          (let best = min_key match_key m ms
           in Some \<lparr>match_length = length (m_group1 best), start_pos = m_start best, word = w\<rparr>))"

subsection \<open>The display label\<close>

text \<open>
  \<open>_get_display\<close> returns either the word itself or a list of (class name, text) pairs.
\<close>

datatype formatted_text = Plain string | Fragments "(string \<times> string) list"

text \<open>
  The loop over the characters of the matched span. \<open>characters\<close> holds the characters
  of the query that are still to be found; the test \<open>c == characters[0]\<close> is the equality
  of characters.
\<close>

fun mark_span :: "string \<Rightarrow> string \<Rightarrow> (string \<times> string) list" where
  "mark_span characters [] = []"
| "mark_span characters (c # cs) =
     (if characters \<noteq> [] \<and> c = hd characters
      then (''class:fuzzymatch.inside.character'', [c]) # mark_span (tl characters) cs
      else (''class:fuzzymatch.inside'', [c]) # mark_span characters cs)"

definition get_display :: "FuzzyMatch \<Rightarrow> string \<Rightarrow> formatted_text" where
  "get_display m word_before_cursor =
     (if match_length m = 0 then Plain (word m)
      else Fragments
        ([(''class:fuzzymatch.outside'', take (start_pos m) (word m))] @
         mark_span word_before_cursor
           (drop (start_pos m) (take (start_pos m + match_length m) (word m))) @
         [(''class:fuzzymatch.outside'', drop (start_pos m + match_length m) (word m))]))"

subsection \<open>The completer\<close>

text \<open>
  The list of words holds Python objects. An object is a string, or it is not: then
  \<open>isinstance(w, string_types)\<close> is false and \<open>regex.finditer(w)\<close> raises \<open>TypeError\<close>.
  The words are given as a list or as a callable that returns the list.
\<close>

datatype py_object = Str string | NoStr

datatype word_source = WordList "py_object list" | Callable "unit \<Rightarrow> py_object list"

datatype py_error = AssertionError | TypeError

fun is_string :: "py_object \<Rightarrow> bool" where
  "is_string (Str s) = True"
| "is_string NoStr = False"

fun callable :: "word_source \<Rightarrow> bool" where
  "callable (Callable f) = True"
| "callable (WordList ws) = False"

record FuzzyWordCompleter =
  words :: word_source
  meta_dict :: "string \<rightharpoonup> string"
  sort_results :: bool
  WORD :: bool

text \<open>\<open>__init__\<close>; \<open>meta_dict or {}\<close> turns the default \<open>None\<close> into the empty dictionary.\<close>

definition init ::
  "word_source \<Rightarrow> (string \<rightharpoonup> string) option \<Rightarrow> bool \<Rightarrow> bool \<Rightarrow> py_error + FuzzyWordCompleter" where
  "init ws md W sr =
     (if callable ws \<or> (case ws of WordList l \<Rightarrow> list_all is_string l | Callable f \<Rightarrow> False)
      then Inr \<lparr>words = ws,
                meta_dict = (case md of None \<Rightarrow> Map.empty | Some d \<Rightarrow> d),
                sort_results = sr,
                WORD = W\<rparr>
      else Inl AssertionError)"

text \<open>\<open>words = self.words; if callable(words): words = words()\<close>\<close>

definition get_words :: "FuzzyWordCompleter \<Rightarrow> py_object list" where
  "get_words self = (case words self of WordList l \<Rightarrow> l | Callable f \<Rightarrow> f ())"

text \<open>
  The loop \<open>for word in words\<close>, with the list \<open>fuzzy_matches\<close> as accumulator. It stops
  with the error of \<open>finditer\<close> at the first object that is not a string.
\<close>

fun match_words :: "atom list \<Rightarrow> FuzzyMatch list \<Rightarrow> py_object list \<Rightarrow> py_error + FuzzyMatch list" where
  "match_words p fuzzy_matches [] = Inr fuzzy_matches"
| "match_words p fuzzy_matches (NoStr # ws) = Inl TypeError"
| "match_words p fuzzy_matches (Str w # ws) =
     (case best_match p w of
        None \<Rightarrow> match_words p fuzzy_matches ws
      | Some m \<Rightarrow> match_words p (fuzzy_matches @ [m]) ws)"

definition sort_key' :: "FuzzyMatch \<Rightarrow> nat \<times> nat" where
  "sort_key' fuzzy_match = (start_pos fuzzy_match, match_length fuzzy_match)"

text \<open>
  \<open>Completion(match.word, -len(word_before_cursor), display_meta=..., display=...)\<close>: the
  text to insert, the start of the replaced text relative to the cursor, and the two labels.
\<close>

record Completion =
  completion_text :: string
  start_position :: int
  display_meta :: string
  display :: formatted_text

definition completion_of :: "FuzzyWordCompleter \<Rightarrow> string \<Rightarrow> FuzzyMatch \<Rightarrow> Completion" where
  "completion_of self word_before_cursor m =
     \<lparr>completion_text = word m,
      start_position = - int (length word_before_cursor),
      display_meta = (case meta_dict self (word m) of None \<Rightarrow> [] | Some v \<Rightarrow> v),
      display = get_display m word_before_cursor\<rparr>"

text \<open>
  \<open>get_completions\<close>. The text before the cursor comes from the document and is an
  argument here. \<open>sorted\<close> is a stable sort, as \<open>sort_key\<close> is. The generator yields
  nothing before the loop over the words has ended, so an error of the loop leaves no
  completion behind; the completions it yields are the list returned here.
\<close>

definition get_completions :: "FuzzyWordCompleter \<Rightarrow> string \<Rightarrow> py_error + Completion list" where
  "get_completions self word_before_cursor =
     (case match_words (pattern word_before_cursor) [] (get_words self) of
        Inl e \<Rightarrow> Inl e
      | Inr fuzzy_matches \<Rightarrow>
          Inr (map (completion_of self word_before_cursor) (sort_key sort_key' fuzzy_matches)))"

subsection \<open>Notions used to state the properties\<close>






text \<open>
  The matches of the candidate words in the order of the candidates, and the same matches
  after the sort.
\<close>

definition candidate_matches :: "string \<Rightarrow> string list \<Rightarrow> FuzzyMatch list" where
  "candidate_matches q ws = List.map_filter (best_match (pattern q)) ws"

definition ranked :: "string \<Rightarrow> string list \<Rightarrow> FuzzyMatch list" where
  "ranked q ws = sort_key sort_key' (candidate_matches q ws)"

text \<open>The text of a display label, and its fragments of the class \<open>inside.character\<close>.\<close>

fun text_of :: "formatted_text \<Rightarrow> string" where
  "text_of (Plain s) = s"
| "text_of (Fragments fs) = concat (map snd fs)"

definition is_character :: "string \<times> string \<Rightarrow> bool" where
  "is_character f = (fst f = ''class:fuzzymatch.inside.character'')"

fun tagged :: "formatted_text \<Rightarrow> (string \<times> string) list" where
  "tagged (Plain s) = []"
| "tagged (Fragments fs) = filter is_character fs"

section \<open>Properties\<close>

subsection \<open>Case folding\<close>

lemma ci_eq_refl: "ci_eq c c" by (simp add: ci_eq_def)
lemma ci_eq_sym: "ci_eq a b \<Longrightarrow> ci_eq b a" by (simp add: ci_eq_def)
lemma ci_eq_trans: "ci_eq a b \<Longrightarrow> ci_eq b c \<Longrightarrow> ci_eq a c" by (simp add: ci_eq_def)



subsection \<open>The pattern and one attempt of the matcher\<close>

lemma pattern_Nil: "pattern [] = []" by (simp add: pattern_def)






subsection \<open>The scan of a word and its best match\<close>

lemma min_key_first: "\<forall>y\<in>set ys. \<not> f y < f x \<Longrightarrow> min_key f x ys = x"
  by (induction ys) simp_all

lemma scan_start_ge: "m \<in> set (scan p pos w) \<Longrightarrow> pos \<le> m_start m"
proof (induction w arbitrary: pos)
  case Nil
  then show ?case by (auto split: option.splits)
next
  case (Cons x w)
  then show ?case by (fastforce split: option.splits)
qed

lemma scan_Nil_iff:
  "scan p pos w = [] \<longleftrightarrow> (\<forall>s\<le>length w. match_here p (drop s w) = None)"
proof (induction w arbitrary: pos)
  case Nil
  then show ?case by (simp split: option.splits)
next
  case (Cons x w)
  have "(\<forall>s\<le>length (x # w). match_here p (drop s (x # w)) = None) \<longleftrightarrow>
        match_here p (x # w) = None \<and> (\<forall>s\<le>length w. match_here p (drop s w) = None)"
  proof
    assume h: "\<forall>s\<le>length (x # w). match_here p (drop s (x # w)) = None"
    have "match_here p (drop 0 (x # w)) = None" using h by blast
    moreover have "\<forall>s\<le>length w. match_here p (drop s w) = None"
    proof (intro allI impI)
      fix s assume "s \<le> length w"
      then have "match_here p (drop (Suc s) (x # w)) = None" using h by auto
      then show "match_here p (drop s w) = None" by simp
    qed
    ultimately show "match_here p (x # w) = None \<and> (\<forall>s\<le>length w. match_here p (drop s w) = None)"
      by simp
  next
    assume h: "match_here p (x # w) = None \<and> (\<forall>s\<le>length w. match_here p (drop s w) = None)"
    show "\<forall>s\<le>length (x # w). match_here p (drop s (x # w)) = None"
    proof (intro allI impI)
      fix s assume "s \<le> length (x # w)"
      then show "match_here p (drop s (x # w)) = None" using h by (cases s) simp_all
    qed
  qed
  with Cons.IH[of "Suc pos"] show ?case by (simp split: option.splits)
qed

lemma scan_Cons:
  "scan p pos w = m # ms \<Longrightarrow>
     \<exists>s n. s \<le> length w \<and> m_start m = pos + s \<and> match_here p (drop s w) = Some n \<and>
           m_group1 m = take n (drop s w) \<and> (\<forall>s'<s. match_here p (drop s' w) = None) \<and>
           (\<forall>m'\<in>set ms. m_start m < m_start m')"
proof (induction w arbitrary: pos)
  case Nil
  then obtain n where "match_here p [] = Some n" and "m = \<lparr>m_start = pos, m_group1 = []\<rparr>"
    and "ms = []"
    by (auto split: option.splits)
  then have "0 \<le> length ([]::string) \<and> m_start m = pos + 0 \<and> match_here p (drop 0 []) = Some n \<and>
           m_group1 m = take n (drop 0 []) \<and> (\<forall>s'<0. match_here p (drop s' []) = None) \<and>
           (\<forall>m'\<in>set ms. m_start m < m_start m')"
    by simp
  then show ?case by blast
next
  case (Cons x w)
  show ?case
  proof (cases "match_here p (x # w)")
    case None
    with Cons.prems have "scan p (Suc pos) w = m # ms" by simp
    from Cons.IH[OF this] obtain s n where s: "s \<le> length w" "m_start m = Suc pos + s"
      "match_here p (drop s w) = Some n" "m_group1 m = take n (drop s w)"
      "\<forall>s'<s. match_here p (drop s' w) = None" "\<forall>m'\<in>set ms. m_start m < m_start m'"
      by blast
    have "\<forall>s'<Suc s. match_here p (drop s' (x # w)) = None"
    proof (intro allI impI)
      fix s' assume "s' < Suc s"
      then show "match_here p (drop s' (x # w)) = None" using None s(5) by (cases s') simp_all
    qed
    with s have "Suc s \<le> length (x # w) \<and> m_start m = pos + Suc s \<and>
           match_here p (drop (Suc s) (x # w)) = Some n \<and>
           m_group1 m = take n (drop (Suc s) (x # w)) \<and>
           (\<forall>s'<Suc s. match_here p (drop s' (x # w)) = None) \<and>
           (\<forall>m'\<in>set ms. m_start m < m_start m')"
      by simp
    then show ?thesis by blast
  next
    case (Some n)
    with Cons.prems have m: "m = \<lparr>m_start = pos, m_group1 = take n (x # w)\<rparr>"
      and ms: "ms = scan p (Suc pos) w"
      by simp_all
    have "\<forall>m'\<in>set ms. m_start m < m_start m'"
    proof
      fix m' assume "m' \<in> set ms"
      with ms have "Suc pos \<le> m_start m'" by (simp add: scan_start_ge)
      with m show "m_start m < m_start m'" by simp
    qed
    with Some m have "0 \<le> length (x # w) \<and> m_start m = pos + 0 \<and>
           match_here p (drop 0 (x # w)) = Some n \<and>
           m_group1 m = take n (drop 0 (x # w)) \<and>
           (\<forall>s'<0. match_here p (drop s' (x # w)) = None) \<and>
           (\<forall>m'\<in>set ms. m_start m < m_start m')"
      by simp
    then show ?thesis by blast
  qed
qed

lemma best_match_None:
  "best_match p w = None \<longleftrightarrow> (\<forall>s\<le>length w. match_here p (drop s w) = None)"
proof -
  have "best_match p w = None \<longleftrightarrow> scan p 0 w = []"
    by (simp add: best_match_def finditer_def Let_def split: list.splits)
  then show ?thesis by (simp add: scan_Nil_iff)
qed

lemma best_match_Some:
  assumes "best_match p w = Some fm"
  shows "\<exists>n. word fm = w \<and> start_pos fm \<le> length w \<and>
             match_here p (drop (start_pos fm) w) = Some n \<and>
             match_length fm = length (take n (drop (start_pos fm) w)) \<and>
             (\<forall>s'<start_pos fm. match_here p (drop s' w) = None)"
proof -
  from assms obtain m ms where sc: "scan p 0 w = m # ms"
    and fm: "fm = \<lparr>match_length = length (m_group1 (min_key match_key m ms)),
                  start_pos = m_start (min_key match_key m ms), word = w\<rparr>"
    by (auto simp add: best_match_def finditer_def Let_def split: list.splits)
  from scan_Cons[OF sc] obtain s n where s: "s \<le> length w" "m_start m = s"
      "match_here p (drop s w) = Some n" "m_group1 m = take n (drop s w)"
      "\<forall>s'<s. match_here p (drop s' w) = None" "\<forall>m'\<in>set ms. m_start m < m_start m'"
    by auto
  from s(6) have "\<forall>y\<in>set ms. \<not> match_key y < match_key m"
    by (auto simp add: match_key_def)
  then have "min_key match_key m ms = m" by (rule min_key_first)
  with fm have "fm = \<lparr>match_length = length (m_group1 m), start_pos = m_start m, word = w\<rparr>"
    by simp
  with s show ?thesis by auto
qed


subsection \<open>Valid spans and subsequences\<close>













subsection \<open>The matcher\<close>




text \<open>
  Claim C6. With the empty query every word has the match of length 0 at offset 0, and
  the display label of this match is the word itself, as one piece without a class.
\<close>

theorem empty_query_matches:
  "best_match (pattern []) w = Some \<lparr>match_length = 0, start_pos = 0, word = w\<rparr> \<and>
   get_display \<lparr>match_length = 0, start_pos = 0, word = w\<rparr> [] = Plain w"
proof -
  have "\<not> (\<forall>s\<le>length w. match_here (pattern []) (drop s w) = None)"
    by (auto simp add: pattern_Nil)
  then have "best_match (pattern []) w \<noteq> None"
    using best_match_None[of "pattern []" w] by blast
  then obtain m where m: "best_match (pattern []) w = Some m" by auto
  from best_match_Some[OF m] obtain n where n: "word m = w"
      "match_here (pattern []) (drop (start_pos m) w) = Some n"
      "match_length m = length (take n (drop (start_pos m) w))"
      "\<forall>s'<start_pos m. match_here (pattern []) (drop s' w) = None"
    by blast
  from n(4) have "start_pos m = 0" by (cases "start_pos m") (auto simp add: pattern_Nil)
  moreover from n(2,3) have "match_length m = 0" by (simp add: pattern_Nil)
  ultimately have "m = \<lparr>match_length = 0, start_pos = 0, word = w\<rparr>" using n(1) by simp
  with m show ?thesis by (simp add: get_display_def)
qed

subsection \<open>The display label\<close>

text \<open>
  Claim C2 asks for a comparison without regard to case in the loop over the matched
  span. The loop compares with \<open>==\<close>: the word \<open>A\<close> matches the query \<open>a\<close>, found by the
  pattern without regard to case, and its only character gets the class \<open>inside\<close>, not
  \<open>inside.character\<close>.
\<close>

theorem get_display_case_sensitive:
  "best_match (pattern ''a'') ''A'' = Some \<lparr>match_length = 1, start_pos = 0, word = ''A''\<rparr> \<and>
   get_display \<lparr>match_length = 1, start_pos = 0, word = ''A''\<rparr> ''a'' =
     Fragments [(''class:fuzzymatch.outside'', []),
                (''class:fuzzymatch.inside'', ''A''),
                (''class:fuzzymatch.outside'', [])]"
proof -
  have "best_match (pattern ''a'') ''A'' = Some \<lparr>match_length = 1, start_pos = 0, word = ''A''\<rparr>"
    by code_simp
  then show ?thesis by (simp add: get_display_def)
qed

lemma text_mark_span: "concat (map snd (mark_span cs sp)) = sp"
  by (induction sp arbitrary: cs) simp_all

lemma slices_join: "take s w @ drop s (take (s + l) w) @ drop (s + l) w = w"
proof -
  have "take s w = take s (take (s + l) w)" by simp
  then have "take s w @ drop s (take (s + l) w) = take (s + l) w"
    by (simp only: append_take_drop_id)
  then have "(take s w @ drop s (take (s + l) w)) @ drop (s + l) w = w"
    by (simp only: append_take_drop_id)
  then show ?thesis by simp
qed

text \<open>
  Claim C5. For every match and every query, the texts of the pieces of the display
  label, joined in order, are the word of the match; this holds as well when the text
  before or after the matched span is empty, and when the label is the word itself.
\<close>

theorem get_display_round_trip: "text_of (get_display m q) = word m"
  by (simp add: get_display_def text_mark_span slices_join)

lemma tagged_mark_span:
  "prefix (concat (map snd (filter is_character (mark_span cs sp)))) cs \<and>
   length (filter is_character (mark_span cs sp)) \<le> length cs"
proof (induction sp arbitrary: cs)
  case Nil
  then show ?case by simp
next
  case (Cons c sp)
  show ?case
  proof (cases "cs \<noteq> [] \<and> c = hd cs")
    case True
    then obtain cs' where cs: "cs = c # cs'" by (cases cs) auto
    with Cons.IH[of cs'] show ?thesis by (simp add: is_character_def)
  next
    case False
    then have "mark_span cs (c # sp) = (''class:fuzzymatch.inside'', [c]) # mark_span cs sp"
      by auto
    with Cons.IH[of cs] show ?thesis by (simp add: is_character_def)
  qed
qed

lemma tagged_mark_span_single:
  "list_all (\<lambda>f. length (snd f) = 1) (filter is_character (mark_span cs sp))"
  by (induction sp arbitrary: cs) (simp_all add: is_character_def)

text \<open>
  Claim C10. For every match and every query, the characters of the fragments of class
  \<open>inside.character\<close>, read in the order of the label, are a prefix of the query; every
  such fragment holds one character, and there are at most as many of them as the query
  has characters. (A match of length 0 has no such fragment.)
\<close>

theorem tagged_prefix_of_query:
  "prefix (concat (map snd (tagged (get_display m q)))) q \<and>
   length (tagged (get_display m q)) \<le> length q \<and>
   list_all (\<lambda>f. length (snd f) = 1) (tagged (get_display m q))"
  using tagged_mark_span[of q "drop (start_pos m) (take (start_pos m + match_length m) (word m))"]
    tagged_mark_span_single[of q "drop (start_pos m) (take (start_pos m + match_length m) (word m))"]
  by (simp add: get_display_def is_character_def)

subsection \<open>The completions\<close>

lemma match_words_strings:
  "match_words p acc (map Str ws) = Inr (acc @ List.map_filter (best_match p) ws)"
proof (induction ws arbitrary: acc)
  case Nil
  then show ?case by (simp add: map_filter_simps)
next
  case (Cons w ws)
  then show ?case by (cases "best_match p w") (simp_all add: map_filter_simps)
qed

lemma match_words_NoStr: "NoStr \<in> set ws \<Longrightarrow> match_words p acc ws = Inl TypeError"
  by (induction p acc ws rule: match_words.induct) (auto split: option.splits)

lemma get_completions_strings:
  assumes "get_words self = map Str ws"
  shows "get_completions self q = Inr (map (completion_of self q) (ranked q ws))"
  using assms
  by (simp add: get_completions_def match_words_strings ranked_def candidate_matches_def)



lemma get_completions_sort_results:
  "get_completions (self\<lparr>sort_results := b\<rparr>) q = get_completions self q"
proof -
  have c: "completion_of (self\<lparr>sort_results := b\<rparr>) q = completion_of self q"
    by (simp add: completion_of_def fun_eq_iff)
  have w: "get_words (self\<lparr>sort_results := b\<rparr>) = get_words self"
    by (simp add: get_words_def)
  show ?thesis unfolding get_completions_def c w ..
qed

text \<open>
  Claim C3 asks that the completions keep the order of the candidates when \<open>sort_results\<close>
  is false. \<open>get_completions\<close> never reads the field and sorts always: with the words
  \<open>ba\<close> and \<open>a\<close>, the query \<open>a\<close> and \<open>sort_results = False\<close>, the completion \<open>a\<close> comes
  first.
\<close>

theorem sort_results_ignored:
  "init (WordList [Str ''ba'', Str ''a'']) None False False =
     Inr \<lparr>words = WordList [Str ''ba'', Str ''a''], meta_dict = Map.empty,
          sort_results = False, WORD = False\<rparr> \<and>
   get_completions \<lparr>words = WordList [Str ''ba'', Str ''a''], meta_dict = Map.empty,
                    sort_results = False, WORD = False\<rparr> ''a'' =
     Inr [\<lparr>completion_text = ''a'', start_position = - 1, display_meta = [],
           display = Fragments [(''class:fuzzymatch.outside'', []),
                                (''class:fuzzymatch.inside.character'', ''a''),
                                (''class:fuzzymatch.outside'', [])]\<rparr>,
          \<lparr>completion_text = ''ba'', start_position = - 1, display_meta = [],
           display = Fragments [(''class:fuzzymatch.outside'', ''b''),
                                (''class:fuzzymatch.inside.character'', ''a''),
                                (''class:fuzzymatch.outside'', [])]\<rparr>]"
proof -
  have a: "best_match (pattern ''a'') ''a'' = Some \<lparr>match_length = 1, start_pos = 0, word = ''a''\<rparr>"
    by code_simp
  have b: "best_match (pattern ''a'') ''ba'' = Some \<lparr>match_length = 1, start_pos = 1, word = ''ba''\<rparr>"
    by code_simp
  show ?thesis
    by (simp add: init_def get_completions_def get_words_def a b sort_key'_def
        completion_of_def get_display_def)
qed

text \<open>
  Claim C4. When all candidates are strings, the completions are those of the ranked
  matches, in their order; the ranked matches are in ascending order of the key
  (\<open>start_pos\<close>, \<open>match_length\<close>), and the matches of one key stand in the order in which
  the candidates produce them. This holds for every value of \<open>sort_results\<close>, the value
  \<open>True\<close> included.
\<close>

theorem ranked_sorted_stable:
  assumes "get_words self = map Str ws"
  shows "get_completions self q = Inr (map (completion_of self q) (ranked q ws)) \<and>
         sorted_wrt (\<lambda>a b. start_pos a < start_pos b \<or>
                           (start_pos a = start_pos b \<and> match_length a \<le> match_length b))
           (ranked q ws) \<and>
         (\<forall>k. filter (\<lambda>m. sort_key' m = k) (ranked q ws) =
              filter (\<lambda>m. sort_key' m = k) (candidate_matches q ws))"
proof -
  have "sorted (map sort_key' (ranked q ws))" by (simp add: ranked_def)
  then have "sorted_wrt (\<lambda>a b. sort_key' a \<le> sort_key' b) (ranked q ws)"
    by (simp add: sorted_map)
  then have "sorted_wrt (\<lambda>a b. start_pos a < start_pos b \<or>
                           (start_pos a = start_pos b \<and> match_length a \<le> match_length b))
           (ranked q ws)"
    by (rule sorted_wrt_mono_rel[rotated]) (auto simp add: sort_key'_def)
  moreover have "\<forall>k. filter (\<lambda>m. sort_key' m = k) (ranked q ws) =
              filter (\<lambda>m. sort_key' m = k) (candidate_matches q ws)"
    by (simp add: ranked_def sort_key_stable)
  ultimately show ?thesis using get_completions_strings[OF assms] by simp
qed

text \<open>The claim at the words \<open>ba\<close> and \<open>a\<close> and the query \<open>a\<close>.\<close>

theorem ranked_sorted_stable_witness:
  "get_words \<lparr>words = WordList [Str ''ba'', Str ''a''], meta_dict = Map.empty,
              sort_results = True, WORD = False\<rparr> = map Str [''ba'', ''a''] \<and>
   ranked ''a'' [''ba'', ''a''] =
     [\<lparr>match_length = 1, start_pos = 0, word = ''a''\<rparr>,
      \<lparr>match_length = 1, start_pos = 1, word = ''ba''\<rparr>] \<and>
   map completion_text (projr (get_completions
      \<lparr>words = WordList [Str ''ba'', Str ''a''], meta_dict = Map.empty,
              sort_results = True, WORD = False\<rparr> ''a'')) = [''a'', ''ba'']"
proof -
  have w: "get_words \<lparr>words = WordList [Str ''ba'', Str ''a''], meta_dict = Map.empty,
              sort_results = True, WORD = False\<rparr> = map Str [''ba'', ''a'']"
    by (simp add: get_words_def)
  have r: "ranked ''a'' [''ba'', ''a''] =
     [\<lparr>match_length = 1, start_pos = 0, word = ''a''\<rparr>,
      \<lparr>match_length = 1, start_pos = 1, word = ''ba''\<rparr>]"
    by code_simp
  from ranked_sorted_stable[OF w, of "''a''"] w r show ?thesis
    by (simp add: completion_of_def)
qed





text \<open>
  Claim C9. A list of words with an entry that is not a string makes the constructor
  fail when it is given as a list; given through a callable, the constructor accepts it
  and \<open>get_completions\<close> fails, as it does for every completer whose words are this
  list. No completion is produced in either case.
\<close>

theorem non_string_entry_raises:
  assumes "NoStr \<in> set ws"
  shows "init (WordList ws) md W sr = Inl AssertionError \<and>
         (\<exists>self. init (Callable (\<lambda>_. ws)) md W sr = Inr self \<and>
                 get_completions self q = Inl TypeError) \<and>
         (\<forall>self. get_words self = ws \<longrightarrow> get_completions self q = Inl TypeError)"
proof -
  have "\<not> is_string NoStr" by simp
  with assms have "\<not> list_all is_string ws" unfolding list_all_iff by blast
  then have 1: "init (WordList ws) md W sr = Inl AssertionError" by (simp add: init_def)
  have 3: "get_completions self q = Inl TypeError" if "get_words self = ws" for self
    using that assms by (simp add: get_completions_def match_words_NoStr)
  let ?self = "\<lparr>words = Callable (\<lambda>_. ws),
                meta_dict = (case md of None \<Rightarrow> Map.empty | Some d \<Rightarrow> d),
                sort_results = sr, WORD = W\<rparr>"
  have "init (Callable (\<lambda>_. ws)) md W sr = Inr ?self" by (simp add: init_def)
  moreover have "get_completions ?self q = Inl TypeError" by (rule 3) (simp add: get_words_def)
  ultimately show ?thesis using 1 3 by blast
qed

theorem non_string_entry_raises_witness:
  "NoStr \<in> set [Str ''cat'', NoStr] \<and>
   init (WordList [Str ''cat'', NoStr]) None False True = Inl AssertionError \<and>
   get_completions \<lparr>words = Callable (\<lambda>_. [Str ''cat'', NoStr]), meta_dict = Map.empty,
                    sort_results = True, WORD = False\<rparr> ''c'' = Inl TypeError"
proof -
  have h: "NoStr \<in> set [Str ''cat'', NoStr]" by simp
  from non_string_entry_raises[OF h, of None False True "''c''"] h show ?thesis
    by (simp add: get_words_def)
qed

end
